theory Spec2Isabelle
  imports Complex_Main
begin

section \<open>Python strings\<close>

text \<open>
  A Python \<open>str\<close> is modelled as a \<open>string\<close>, one \<open>char\<close> per character.
  \<open>str.isalpha\<close> and \<open>str.upper\<close> consult the Unicode character database, which is
  not part of the repository: the per-character alphabetic test \<open>alpha\<close> and the case
  mapping \<open>upper\<close> are parameters of every function that calls them.  The concrete
  ASCII instances \<open>ascii_alpha\<close> and \<open>ascii_upper\<close> are used to run the model.
\<close>

definition is_AZ :: "char \<Rightarrow> bool" where
  "is_AZ c = (65 \<le> (of_char c :: nat) \<and> (of_char c :: nat) \<le> 90)"

definition is_az :: "char \<Rightarrow> bool" where
  "is_az c = (97 \<le> (of_char c :: nat) \<and> (of_char c :: nat) \<le> 122)"

definition is_09 :: "char \<Rightarrow> bool" where
  "is_09 c = (48 \<le> (of_char c :: nat) \<and> (of_char c :: nat) \<le> 57)"

definition ascii_alpha :: "char \<Rightarrow> bool" where
  "ascii_alpha c = (is_AZ c \<or> is_az c)"

definition ascii_upper :: "string \<Rightarrow> string" where
  "ascii_upper s = map (\<lambda>c. if is_az c then char_of (of_char c - (32::nat)) else c) s"

text \<open>\<open>s.isalpha()\<close>: at least one character, and all of them alphabetic.\<close>

definition isalpha :: "(char \<Rightarrow> bool) \<Rightarrow> string \<Rightarrow> bool" where
  "isalpha alpha s = (s \<noteq> [] \<and> list_all alpha s)"

section \<open>scripts/room_segments_v2.py: the segmentation fold\<close>

subsection \<open>Marker validity\<close>

text \<open>
  \<open>is_valid_marker\<close> of \<open>room_segments_v2.py\<close>; \<open>None\<close> is the SQL NULL of the
  left join.  The indexing \<open>m[0] == m[1]\<close> is only reached when \<open>len(m) == 2\<close>.
\<close>

definition is_valid_marker :: "(char \<Rightarrow> bool) \<Rightarrow> string option \<Rightarrow> bool" where
  "is_valid_marker alpha m =
     (case m of
        None \<Rightarrow> False
      | Some s \<Rightarrow>
          if length s = 1 \<and> isalpha alpha s then True
          else if length s = 2 \<and> s ! 0 = s ! 1 \<and> isalpha alpha s then True
          else False)"

text \<open>The same helper as \<open>room_segments.py\<close> (version 1) declares it.\<close>

definition is_valid_marker_v1 :: "(char \<Rightarrow> bool) \<Rightarrow> string option \<Rightarrow> bool" where
  "is_valid_marker_v1 alpha m =
     (case m of
        None \<Rightarrow> False
      | Some s \<Rightarrow>
          if length s = 1 \<and> isalpha alpha s then True
          else if length s = 2 \<and> s ! 0 = s ! 1 \<and> isalpha alpha s then True
          else False)"

definition confidence_for :: "int \<Rightarrow> real" where
  "confidence_for n =
     (if n \<ge> 20 then 0.92
      else if n \<ge> 8 then 0.90
      else if n \<ge> 3 then 0.80
      else 0.60)"

subsection \<open>Rows, segments and the accumulator\<close>

text \<open>
  One row of the query: \<open>location_label\<close>, \<open>shoot_index\<close>, \<open>has_marker\<close> and
  \<open>marker_text\<close> come from left joins and may be NULL; \<open>is_slate\<close> is coalesced to
  a boolean.
\<close>

record row =
  efta_id :: int
  file_id :: string
  loc :: "string option"
  shoot :: "int option"
  is_slate :: bool
  has_marker :: "bool option"
  marker :: "string option"

record segment =
  segment_id :: int
  location_label :: string
  shoot_index :: "int option"
  marker_text :: string
  start_efta_id :: int
  start_file_id :: string
  end_efta_id :: int
  end_file_id :: string
  n_files :: int
  confidence :: real
  reset_reason :: string

text \<open>The variables the loop of \<open>main\<close> mutates, as an explicit accumulator.\<close>

record seg_state =
  segments :: "segment list"
  seg_id :: int
  cur :: "segment option"
  prev_loc :: "string option"
  prev_shoot :: "int option"

definition init_state :: seg_state where
  "init_state = \<lparr>segments = [], seg_id = 0, cur = None, prev_loc = None, prev_shoot = None\<rparr>"

definition close_cur :: "string \<Rightarrow> seg_state \<Rightarrow> seg_state" where
  "close_cur reason st =
     (case cur st of
        None \<Rightarrow> st
      | Some c \<Rightarrow> st\<lparr>segments := segments st @ [c\<lparr>reset_reason := reason\<rparr>], cur := None\<rparr>)"

definition start_segment ::
  "string \<Rightarrow> int option \<Rightarrow> string \<Rightarrow> int \<Rightarrow> string \<Rightarrow> seg_state \<Rightarrow> seg_state" where
  "start_segment l sh mt eid fid st =
     st\<lparr>seg_id := seg_id st + 1,
        cur := Some \<lparr>segment_id = seg_id st + 1,
                     location_label = l,
                     shoot_index = sh,
                     marker_text = mt,
                     start_efta_id = eid,
                     start_file_id = fid,
                     end_efta_id = eid,
                     end_file_id = fid,
                     n_files = 1,
                     confidence = 0,
                     reset_reason = []\<rparr>\<rparr>"

text \<open>The two in-place updates of an open segment (\<open>cur["end_efta_id"] = ...\<close> etc.).\<close>

definition extend_cur :: "int \<Rightarrow> string \<Rightarrow> segment \<Rightarrow> segment" where
  "extend_cur eid fid c = c\<lparr>end_efta_id := eid, end_file_id := fid, n_files := n_files c + 1\<rparr>"

text \<open>The block under \<open># hard resets\<close>; \<open>l\<close> is the location after the UNKNOWN default.\<close>

definition hard_resets :: "string \<Rightarrow> int option \<Rightarrow> seg_state \<Rightarrow> seg_state" where
  "hard_resets l sh st =
     (case prev_loc st of
        None \<Rightarrow> st\<lparr>prev_loc := Some l, prev_shoot := sh\<rparr>
      | Some pl \<Rightarrow>
          if l \<noteq> pl then (close_cur ''location_change'' st)\<lparr>prev_loc := Some l, prev_shoot := sh\<rparr>
          else if sh \<noteq> prev_shoot st then
            (close_cur ''shoot_change'' st)\<lparr>prev_loc := Some l, prev_shoot := sh\<rparr>
          else st)"

definition loc_or_unknown :: "row \<Rightarrow> string" where
  "loc_or_unknown r = (case loc r of None \<Rightarrow> ''UNKNOWN'' | Some l \<Rightarrow> l)"

text \<open>\<open>marker if has_marker and is_valid_marker(marker) else None\<close>.\<close>

definition new_marker :: "(char \<Rightarrow> bool) \<Rightarrow> row \<Rightarrow> string option" where
  "new_marker alpha r =
     (if has_marker r = Some True \<and> is_valid_marker alpha (marker r) then marker r else None)"

text \<open>One iteration of the \<open>for\<close> loop of \<open>main\<close>.\<close>

definition step :: "(char \<Rightarrow> bool) \<Rightarrow> bool \<Rightarrow> row \<Rightarrow> seg_state \<Rightarrow> seg_state" where
  "step alpha keep_unmarked r st0 =
     (let l = loc_or_unknown r;
          st = hard_resets l (shoot r) st0
      in if is_slate r then close_cur ''slate'' st
         else
           (case new_marker alpha r of
              Some m \<Rightarrow>
                (case cur st of
                   None \<Rightarrow> start_segment l (shoot r) m (efta_id r) (file_id r) st
                 | Some c \<Rightarrow>
                     if m \<noteq> marker_text c then
                       start_segment l (shoot r) m (efta_id r) (file_id r)
                         (close_cur ''marker_change'' st)
                     else st\<lparr>cur := Some (extend_cur (efta_id r) (file_id r) c)\<rparr>)
            | None \<Rightarrow>
                (case cur st of
                   Some c \<Rightarrow> st\<lparr>cur := Some (extend_cur (efta_id r) (file_id r) c)\<rparr>
                 | None \<Rightarrow>
                     if keep_unmarked then
                       start_segment l (shoot r) ''UNMARKED'' (efta_id r) (file_id r) st
                     else st)))"

text \<open>The loop over the rows, then \<open>close_cur("eof")\<close>: the list \<open>segments\<close>.\<close>

definition run_rows :: "(char \<Rightarrow> bool) \<Rightarrow> bool \<Rightarrow> row list \<Rightarrow> seg_state \<Rightarrow> seg_state" where
  "run_rows alpha keep_unmarked rows st = fold (step alpha keep_unmarked) rows st"

definition fold_segments :: "(char \<Rightarrow> bool) \<Rightarrow> bool \<Rightarrow> row list \<Rightarrow> segment list" where
  "fold_segments alpha keep_unmarked rows =
     segments (close_cur ''eof'' (run_rows alpha keep_unmarked rows init_state))"

text \<open>The post-pass: confidence by file count, then the two filters; the list \<open>kept\<close>.\<close>

definition kept_segments :: "bool \<Rightarrow> int \<Rightarrow> segment list \<Rightarrow> segment list" where
  "kept_segments keep_unmarked min_run segs =
     filter (\<lambda>s. \<not> (marker_text s = ''UNMARKED'' \<and> \<not> keep_unmarked) \<and> n_files s \<ge> min_run)
       (map (\<lambda>s. s\<lparr>confidence := confidence_for (n_files s)\<rparr>) segs)"

definition room_segments_v2 ::
  "(char \<Rightarrow> bool) \<Rightarrow> bool \<Rightarrow> int \<Rightarrow> row list \<Rightarrow> segment list" where
  "room_segments_v2 alpha keep_unmarked min_run rows =
     kept_segments keep_unmarked min_run (fold_segments alpha keep_unmarked rows)"

text \<open>Every segment the accumulator holds: the closed ones, then the open one.\<close>

definition all_segs :: "seg_state \<Rightarrow> segment list" where
  "all_segs st = segments st @ (case cur st of None \<Rightarrow> [] | Some c \<Rightarrow> [c])"

section \<open>src/ingest_dataset.py: the OCR observation extractor\<close>

text \<open>
  \<open>ocr_text(img_bgr, roi, psm, whitelist)\<close> crops the bitmap and calls the Tesseract
  engine.  For one page bitmap it is a function from the region tag, the page
  segmentation mode and the optional whitelist to the text read; that function is the
  parameter \<open>ocr\<close> below, so "for every page bitmap" is "for every \<open>ocr\<close>".
\<close>

type_synonym ocr_engine = "string \<Rightarrow> int \<Rightarrow> string option \<Rightarrow> string"

text \<open>Python's \<open>a in b\<close> on strings.\<close>

fun startswith :: "string \<Rightarrow> string \<Rightarrow> bool" where
  "startswith [] b = True"
| "startswith (x # a) [] = False"
| "startswith (x # a) (y # b) = (x = y \<and> startswith a b)"

fun is_substr :: "string \<Rightarrow> string \<Rightarrow> bool" where
  "is_substr a [] = (a = [])"
| "is_substr a (y # b) = (startswith a (y # b) \<or> is_substr a b)"

text \<open>\<open>re.sub(r"[^A-Z0-9]", "", s)\<close> and \<open>re.sub(r"[^A-Z]", "", s)\<close>.\<close>

definition keep_AZ09 :: "string \<Rightarrow> string" where
  "keep_AZ09 s = filter (\<lambda>c. is_AZ c \<or> is_09 c) s"

definition keep_AZ :: "string \<Rightarrow> string" where
  "keep_AZ s = filter is_AZ s"

text \<open>\<open>str.strip()\<close>, for the whitespace of the ASCII range.\<close>

definition is_space :: "char \<Rightarrow> bool" where
  "is_space c = ((9 \<le> (of_char c :: nat) \<and> (of_char c :: nat) \<le> 13)
                 \<or> (28 \<le> (of_char c :: nat) \<and> (of_char c :: nat) \<le> 32))"

definition strip :: "string \<Rightarrow> string" where
  "strip s = rev (dropWhile is_space (rev (dropWhile is_space s)))"

subsection \<open>Slate detection\<close>

text \<open>
  The test the source writes twice, for \<open>keywords\<close> and for \<open>strong_keywords\<close>:
  \<open>(k.upper() in up) or (kc and kc in compact)\<close>.  An empty compacted keyword is
  falsy and never matches through the compact form.
\<close>

definition kw_hit :: "(string \<Rightarrow> string) \<Rightarrow> string \<Rightarrow> string \<Rightarrow> string \<times> string \<Rightarrow> bool" where
  "kw_hit upper up cmp kk =
     (case kk of (k, kc) \<Rightarrow> is_substr (upper k) up \<or> (kc \<noteq> [] \<and> is_substr kc cmp))"

definition detect_slate ::
  "(string \<Rightarrow> string) \<Rightarrow> ocr_engine \<Rightarrow> string \<Rightarrow> int \<Rightarrow> string list \<Rightarrow> int \<Rightarrow> string list
     \<Rightarrow> bool \<times> string \<times> string list" where
  "detect_slate upper ocr roi psm keywords min_keywords strong_keywords =
     (let txt = ocr roi psm None;
          up = upper txt;
          cmp = keep_AZ09 up;
          keywords_compact = map (\<lambda>k. keep_AZ09 (upper k)) keywords;
          found = map fst (filter (kw_hit upper up cmp) (zip keywords keywords_compact));
          strong_compact = map (\<lambda>k. keep_AZ09 (upper k)) strong_keywords;
          strong = (if strong_keywords \<noteq> []
                    then list_all (kw_hit upper up cmp) (zip strong_keywords strong_compact)
                    else False);
          is_slate = (int (length found) \<ge> min_keywords \<or> strong)
      in (is_slate, txt, found))"

text \<open>
  "Keyword \<open>k\<close> matches the OCR text \<open>txt\<close>": against the raw uppercased text, or,
  through its non-empty compacted form, against the compacted text.
\<close>

definition keyword_matches :: "(string \<Rightarrow> string) \<Rightarrow> string \<Rightarrow> string \<Rightarrow> bool" where
  "keyword_matches upper txt k =
     kw_hit upper (upper txt) (keep_AZ09 (upper txt)) (k, keep_AZ09 (upper k))"

subsection \<open>Room-marker detection\<close>

definition clean_letters :: "(string \<Rightarrow> string) \<Rightarrow> string \<Rightarrow> string" where
  "clean_letters upper s = strip (keep_AZ (upper s))"

text \<open>
  \<open>re.findall(r"[A-Z]{1,2}", s)\<close>: the leftmost non-overlapping matches, each as
  long as it can be.
\<close>

fun findall_AZ12 :: "string \<Rightarrow> string list" where
  "findall_AZ12 [] = []"
| "findall_AZ12 [a] = (if is_AZ a then [[a]] else [])"
| "findall_AZ12 (a # b # s) =
     (if is_AZ a then
        (if is_AZ b then [a, b] # findall_AZ12 s else [a] # findall_AZ12 (b # s))
      else findall_AZ12 (b # s))"

text \<open>
  \<open>room_re.match\<close> for the default pattern \<open>^[A-Z]{1,2}$\<close> of
  \<open>ocr.room_marker.regex\<close>: one or two capital letters, and \<open>$\<close> also matches
  before a newline that ends the string.
\<close>

definition room_re_default :: "string \<Rightarrow> bool" where
  "room_re_default s =
     (case s of
        [a] \<Rightarrow> is_AZ a
      | [a, b] \<Rightarrow> is_AZ a \<and> (is_AZ b \<or> b = CHR 0x0A)
      | [a, b, c] \<Rightarrow> is_AZ a \<and> is_AZ b \<and> c = CHR 0x0A
      | _ \<Rightarrow> False)"

definition best_candidate_from_text ::
  "(string \<Rightarrow> string) \<Rightarrow> (string \<Rightarrow> bool) \<Rightarrow> string \<Rightarrow> string option" where
  "best_candidate_from_text upper room_re txt =
     (let cand = clean_letters upper txt in
      if room_re cand then Some cand
      else (case filter room_re (findall_AZ12 (upper txt)) of
              [] \<Rightarrow> None
            | t # _ \<Rightarrow> Some t))"

text \<open>\<open>if cand:\<close> on an optional string: neither \<open>None\<close> nor empty.\<close>

definition truthy :: "string option \<Rightarrow> bool" where
  "truthy c = (case c of None \<Rightarrow> False | Some s \<Rightarrow> s \<noteq> [])"

text \<open>
  The score of a candidate: \<open>base + (2 if len(cand) == 2 else 1)\<close>, then
  \<open>score += max(0, 5 - len(clean_letters(txt)))\<close>; \<open>base\<close> is 10 under
  \<open>psm=10\<close> (single character) and 8 under \<open>psm=8\<close> (single word).
\<close>

definition candidate_score :: "(string \<Rightarrow> string) \<Rightarrow> int \<Rightarrow> string \<Rightarrow> string \<Rightarrow> int" where
  "candidate_score upper base cand txt =
     base + (if length cand = 2 then 2 else 1)
          + max 0 (5 - int (length (clean_letters upper txt)))"

text \<open>The tuple \<open>best\<close>: score, marker, OCR text, region, mode.\<close>

type_synonym best_cand = "int \<times> string \<times> string \<times> string \<times> int"

text \<open>One of the two blocks of the loop body, for the mode \<open>psm\<close> and its base score.\<close>

definition try_psm ::
  "(string \<Rightarrow> string) \<Rightarrow> ocr_engine \<Rightarrow> string \<Rightarrow> (string \<Rightarrow> bool) \<Rightarrow> string \<Rightarrow> int \<Rightarrow> int
     \<Rightarrow> best_cand option \<Rightarrow> best_cand option" where
  "try_psm upper ocr whitelist room_re r psm base best =
     (let txt = ocr r psm (Some whitelist);
          cand = best_candidate_from_text upper room_re txt
      in if truthy cand then
           (let score = candidate_score upper base (the cand) txt
            in if best = None \<or> score > fst (the best)
               then Some (score, the cand, txt, r, psm)
               else best)
         else best)"

definition roi_list :: "string list" where
  "roi_list = [''left_band'', ''right_band'', ''top_band'', ''bottom_band'', ''center_small'', ''full'']"

definition multi_roi_best ::
  "(string \<Rightarrow> string) \<Rightarrow> ocr_engine \<Rightarrow> string \<Rightarrow> (string \<Rightarrow> bool) \<Rightarrow> best_cand option" where
  "multi_roi_best upper ocr whitelist room_re =
     fold (\<lambda>r best. try_psm upper ocr whitelist room_re r 8 8
                      (try_psm upper ocr whitelist room_re r 10 10 best))
          roi_list None"

text \<open>Decimal printing of an integer, for the f-string of the provenance.\<close>

fun str_nat :: "nat \<Rightarrow> string" where
  "str_nat n = (if n < 10 then [char_of (48 + n)]
                else str_nat (n div 10) @ [char_of (48 + n mod 10)])"

definition str_int :: "int \<Rightarrow> string" where
  "str_int i = (if i < 0 then CHR ''-'' # str_nat (nat (- i)) else str_nat (nat i))"

definition detect_room_marker ::
  "(string \<Rightarrow> string) \<Rightarrow> ocr_engine \<Rightarrow> string \<Rightarrow> int \<Rightarrow> string \<Rightarrow> (string \<Rightarrow> bool)
     \<Rightarrow> bool \<times> string option \<times> string" where
  "detect_room_marker upper ocr roi psm whitelist room_re =
     (if roi \<noteq> ''multi'' then
        (let txt = ocr roi psm (Some whitelist);
             cand = best_candidate_from_text upper room_re txt
         in if truthy cand then (True, cand, txt)
            else
              (let txt2 = ocr roi 10 (Some whitelist);
                   cand2 = best_candidate_from_text upper room_re txt2
               in if truthy cand2 then (True, cand2, txt2)
                  else (False, None, txt)))
      else
        (case multi_roi_best upper ocr whitelist room_re of
           Some (score, cand, txt, r, p) \<Rightarrow>
             (True, Some cand, ''[roi='' @ r @ '' psm='' @ str_int p @ ''] '' @ txt)
         | None \<Rightarrow> (False, None, [])))"

section \<open>scripts/room_graph_ransac.py: the keypoint similarity scorer\<close>







subsection \<open>The similarity graph\<close>








section \<open>Auxiliary notions for the proofs\<close>

text \<open>The ID interval of a segment, and the intervals of every segment of a state.\<close>

definition iv :: "segment \<Rightarrow> int \<times> int" where
  "iv s = (start_efta_id s, end_efta_id s)"

definition ivals :: "seg_state \<Rightarrow> (int \<times> int) list" where
  "ivals st = map iv (all_segs st)"

text \<open>
  The invariant of the fold: the intervals are non-empty, each ends before the next
  starts, and all end before the bound \<open>b\<close> (the next page ID).
\<close>

definition ok_ivals :: "int \<Rightarrow> (int \<times> int) list \<Rightarrow> bool" where
  "ok_ivals b xs =
     (sorted_wrt (\<lambda>p q. snd p < fst q) xs \<and> (\<forall>p\<in>set xs. fst p \<le> snd p \<and> snd p < b))"

text \<open>
  The IDs in \<open>S\<close> lie in no closed segment's interval and before the open segment;
  \<open>slate_ids\<close> are the IDs of the slate pages of a page sequence.
\<close>

definition avoid_ids :: "int set \<Rightarrow> seg_state \<Rightarrow> bool" where
  "avoid_ids S st =
     ((\<forall>s\<in>set (segments st). \<forall>x\<in>S. x \<notin> {start_efta_id s..end_efta_id s})
      \<and> (\<forall>c. cur st = Some c \<longrightarrow> (\<forall>x\<in>S. x < start_efta_id c)))"

definition slate_ids :: "row list \<Rightarrow> int set" where
  "slate_ids rows = efta_id ` {r \<in> set rows. is_slate r}"

text \<open>A segment with its reset reason blanked: everything a page could change.\<close>

definition sans_reason :: "segment \<Rightarrow> segment" where
  "sans_reason s = s\<lparr>reset_reason := []\<rparr>"

text \<open>Sample rows: location L1, shoot 1, a marker or none, a slate or not.\<close>

definition demo_row :: "int \<Rightarrow> bool \<Rightarrow> string option \<Rightarrow> row" where
  "demo_row i sl m =
     \<lparr>efta_id = i, file_id = ''EFTA'' @ str_int i, loc = Some ''L1'', shoot = Some 1,
      is_slate = sl, has_marker = Some (m \<noteq> None), marker = m\<rparr>"

definition demo_rows :: "row list" where
  "demo_rows = [demo_row 1 False (Some ''B''), demo_row 2 False None, demo_row 3 True None,
                demo_row 4 False (Some ''CC''), demo_row 5 False (Some ''C'')]"

text \<open>The state after pages 1 and 2 of the sample: a segment B is open.\<close>

definition demo_open :: seg_state where
  "demo_open = run_rows ascii_alpha False [demo_row 1 False (Some ''B''), demo_row 2 False None] init_state"

text \<open>A page on which every region and mode reads the same text.\<close>

definition ocr_const :: "string \<Rightarrow> ocr_engine" where
  "ocr_const t = (\<lambda>roi psm whitelist. t)"

text \<open>A page given by a table of (region, mode, text read); other reads are empty.\<close>

definition ocr_table :: "(string \<times> int \<times> string) list \<Rightarrow> ocr_engine" where
  "ocr_table tab = (\<lambda>roi psm whitelist.
      case filter (\<lambda>e. fst e = roi \<and> fst (snd e) = psm) tab of
        [] \<Rightarrow> []
      | e # _ \<Rightarrow> snd (snd e))"

definition demo_page :: ocr_engine where
  "demo_page = ocr_table [(''left_band'', 10, ''B XXXX''), (''left_band'', 8, ''CC DD''),
                          (''top_band'', 10, ''cc''), (''full'', 10, ''DD'')]"

text \<open>A page with a single-letter and a doubled-letter candidate of equal score.\<close>

definition tie_page :: ocr_engine where
  "tie_page = ocr_table [(''left_band'', 10, ''B XXXX''), (''left_band'', 8, ''CC DD'')]"

definition capitals :: string where
  "capitals = ''ABCDEFGHIJKLMNOPQRSTUVWXYZ''"

text \<open>One or two capital letters.\<close>

definition letters12 :: "string \<Rightarrow> bool" where
  "letters12 s = ((length s = 1 \<or> length s = 2) \<and> list_all is_AZ s)"

definition best_ok :: "best_cand option \<Rightarrow> bool" where
  "best_ok b = (case b of None \<Rightarrow> True | Some (sc, c, rest) \<Rightarrow> letters12 c)"

text \<open>The (region, mode, base score) triples in the order the loop evaluates them.\<close>

definition eval_order :: "(string \<times> int \<times> int) list" where
  "eval_order = concat (map (\<lambda>r. [(r, 10, 10), (r, 8, 8)]) roi_list)"

text \<open>The scored candidate of one (region, mode) pair, if it yields one.\<close>

definition candidate_at ::
  "(string \<Rightarrow> string) \<Rightarrow> ocr_engine \<Rightarrow> string \<Rightarrow> (string \<Rightarrow> bool) \<Rightarrow> string \<times> int \<times> int
     \<Rightarrow> best_cand list" where
  "candidate_at upper ocr whitelist room_re e =
     (case e of (r, psm, base) \<Rightarrow>
        (case best_candidate_from_text upper room_re (ocr r psm (Some whitelist)) of
           None \<Rightarrow> []
         | Some c \<Rightarrow>
             if c = [] then []
             else [(candidate_score upper base c (ocr r psm (Some whitelist)), c,
                    ocr r psm (Some whitelist), r, psm)]))"

definition candidates ::
  "(string \<Rightarrow> string) \<Rightarrow> ocr_engine \<Rightarrow> string \<Rightarrow> (string \<Rightarrow> bool) \<Rightarrow> best_cand list" where
  "candidates upper ocr whitelist room_re =
     concat (map (candidate_at upper ocr whitelist room_re) eval_order)"

text \<open>
  \<open>w\<close> is the first of the highest-scoring entries of \<open>cs\<close>: the entries before
  it score strictly less, the entries after it at most as much.
\<close>

definition first_highest :: "best_cand list \<Rightarrow> best_cand \<Rightarrow> bool" where
  "first_highest cs w =
     (\<exists>pre post. cs = pre @ w # post
        \<and> list_all (\<lambda>x. fst x < fst w) pre \<and> list_all (\<lambda>x. fst x \<le> fst w) post)"

text \<open>The update of \<open>best\<close> by one candidate.\<close>

definition pick :: "best_cand \<Rightarrow> best_cand option \<Rightarrow> best_cand option" where
  "pick x best = (if best = None \<or> fst x > fst (the best) then Some x else best)"










section \<open>Marker validity\<close>

text \<open>
  C4. \<open>is_valid_marker m\<close> is true exactly when \<open>m\<close> is a string of one alphabetic
  character, or of two identical alphabetic characters; every other string, and
  \<open>None\<close>, is rejected.  Both versions of the script declare the same predicate.
\<close>

theorem is_valid_marker_exact:
  "is_valid_marker alpha m =
     (\<exists>c. alpha c \<and> (m = Some [c] \<or> m = Some [c, c]))
   \<and> is_valid_marker_v1 alpha m = is_valid_marker alpha m"
proof -
  have v1: "is_valid_marker_v1 alpha m = is_valid_marker alpha m"
    by (simp add: is_valid_marker_v1_def is_valid_marker_def)
  have "is_valid_marker alpha m = (\<exists>c. alpha c \<and> (m = Some [c] \<or> m = Some [c, c]))"
  proof (cases m)
    case None
    then show ?thesis by (simp add: is_valid_marker_def)
  next
    case (Some s)
    show ?thesis
    proof (cases s)
      case Nil
      with Some show ?thesis by (simp add: is_valid_marker_def isalpha_def)
    next
      case (Cons a t)
      note s1 = this
      show ?thesis
      proof (cases t)
        case Nil
        with Some s1 show ?thesis by (auto simp: is_valid_marker_def isalpha_def)
      next
        case (Cons b u)
        with Some s1 show ?thesis
          by (cases u) (auto simp: is_valid_marker_def isalpha_def)
      qed
    qed
  qed
  with v1 show ?thesis by simp
qed

section \<open>The segmentation fold\<close>

lemma ivals_close_cur: "ivals (close_cur reason st) = ivals st"
  by (simp add: ivals_def all_segs_def close_cur_def iv_def split: option.splits)

lemma cur_close_cur: "cur (close_cur reason st) = None"
  by (simp add: close_cur_def split: option.splits)

lemma ivals_prev_update:
  "ivals (st\<lparr>prev_loc := a\<rparr>) = ivals st" "ivals (st\<lparr>prev_shoot := b\<rparr>) = ivals st"
  by (simp_all add: ivals_def all_segs_def)

lemma ivals_hard_resets: "ivals (hard_resets l sh st) = ivals st"
  by (simp add: hard_resets_def ivals_prev_update ivals_close_cur split: option.splits)

lemma ivals_start_segment:
  "cur st = None \<Longrightarrow> ivals (start_segment l sh m e f st) = ivals st @ [(e, e)]"
  by (simp add: ivals_def all_segs_def start_segment_def iv_def)

lemma ivals_extend:
  "cur st = Some c \<Longrightarrow>
   ivals (st\<lparr>cur := Some (extend_cur e f c)\<rparr>) = map iv (segments st) @ [(start_efta_id c, e)]
   \<and> ivals st = map iv (segments st) @ [(start_efta_id c, end_efta_id c)]"
  by (simp add: ivals_def all_segs_def extend_cur_def iv_def)

lemma ok_ivals_snoc_new:
  "ok_ivals b xs \<Longrightarrow> b \<le> e \<Longrightarrow> ok_ivals (e + 1) (xs @ [(e, e)])"
  by (fastforce simp: ok_ivals_def sorted_wrt_append)

lemma ok_ivals_snoc_extend:
  "ok_ivals b (xs @ [(s, e0)]) \<Longrightarrow> b \<le> e \<Longrightarrow> ok_ivals (e + 1) (xs @ [(s, e)])"
  by (fastforce simp: ok_ivals_def sorted_wrt_append)

lemma ok_ivals_mono: "ok_ivals b xs \<Longrightarrow> b \<le> b' \<Longrightarrow> ok_ivals b' xs"
  by (fastforce simp: ok_ivals_def)

lemma step_ok_ivals:
  assumes "ok_ivals b (ivals st)" and "b \<le> efta_id r"
  shows "ok_ivals (efta_id r + 1) (ivals (step alpha ku r st))"
proof -
  define st1 where "st1 = hard_resets (loc_or_unknown r) (shoot r) st"
  have ok1: "ok_ivals b (ivals st1)"
    using assms(1) by (simp add: st1_def ivals_hard_resets)
  have keep: "ok_ivals (efta_id r + 1) (ivals st1)"
    using ok1 assms(2) by (rule_tac ok_ivals_mono) auto
  have new: "\<And>s l sh m f. cur s = None \<Longrightarrow> ivals s = ivals st1 \<Longrightarrow>
      ok_ivals (efta_id r + 1) (ivals (start_segment l sh m (efta_id r) f s))"
    using ok1 assms(2) by (simp add: ivals_start_segment ok_ivals_snoc_new)
  have ext: "\<And>c. cur st1 = Some c \<Longrightarrow>
      ok_ivals (efta_id r + 1) (ivals (st1\<lparr>cur := Some (extend_cur (efta_id r) (file_id r) c)\<rparr>))"
  proof -
    fix c assume c: "cur st1 = Some c"
    from ivals_extend[OF c, of "efta_id r" "file_id r"] ok1 assms(2)
    show "ok_ivals (efta_id r + 1) (ivals (st1\<lparr>cur := Some (extend_cur (efta_id r) (file_id r) c)\<rparr>))"
      by (auto intro: ok_ivals_snoc_extend)
  qed
  show ?thesis
    unfolding step_def Let_def st1_def[symmetric]
    by (auto simp: ivals_close_cur cur_close_cur keep new ext split: option.splits)
qed

lemma run_rows_ok_ivals:
  "ok_ivals b (ivals st) \<Longrightarrow> sorted_wrt (<) (map efta_id rows) \<Longrightarrow>
   \<forall>r\<in>set rows. b \<le> efta_id r \<Longrightarrow>
   \<exists>b'. ok_ivals b' (ivals (run_rows alpha ku rows st))"
proof (induction rows arbitrary: b st)
  case Nil
  then show ?case by (auto simp: run_rows_def)
next
  case (Cons r rows)
  have 1: "ok_ivals (efta_id r + 1) (ivals (step alpha ku r st))"
    using Cons.prems by (intro step_ok_ivals[where b=b]) auto
  have 2: "\<forall>x\<in>set rows. efta_id r + 1 \<le> efta_id x"
    using Cons.prems(2) by auto
  from Cons.IH[OF 1 _ 2] Cons.prems(2)
  show ?case by (simp add: run_rows_def)
qed

lemma fold_segments_ok:
  assumes "sorted_wrt (<) (map efta_id rows)"
  shows "sorted_wrt (\<lambda>p q. snd p < fst q) (map iv (fold_segments alpha ku rows))
         \<and> (\<forall>p\<in>set (map iv (fold_segments alpha ku rows)). fst p \<le> snd p)"
proof -
  obtain b0 where b0: "\<forall>r\<in>set rows. b0 \<le> efta_id r"
  proof
    show "\<forall>r\<in>set rows. Min (insert 0 (efta_id ` set rows)) \<le> efta_id r"
      by (auto intro: Min_le)
  qed
  have "ok_ivals b0 (ivals init_state)"
    by (simp add: ok_ivals_def ivals_def all_segs_def init_state_def)
  from run_rows_ok_ivals[OF this assms b0]
  obtain b where b: "ok_ivals b (ivals (run_rows alpha ku rows init_state))"
    by blast
  have "map iv (fold_segments alpha ku rows) = ivals (close_cur ''eof'' (run_rows alpha ku rows init_state))"
    by (simp add: fold_segments_def ivals_def all_segs_def cur_close_cur)
  with b show ?thesis
    by (simp add: ivals_close_cur ok_ivals_def)
qed

lemma kept_segments_ivals:
  "map iv (kept_segments ku min_run segs)
     = map iv (filter (\<lambda>s. \<not> (marker_text s = ''UNMARKED'' \<and> \<not> ku) \<and> n_files s \<ge> min_run) segs)"
  by (simp add: kept_segments_def filter_map comp_def iv_def)

lemma disjoint_from_sorted:
  assumes "sorted_wrt (\<lambda>p q. snd p < fst q) (map iv segs)"
      and "i < j" and "j < length segs"
  shows "{start_efta_id (segs ! i)..end_efta_id (segs ! i)}
           \<inter> {start_efta_id (segs ! j)..end_efta_id (segs ! j)} = {}"
proof -
  have "snd (map iv segs ! i) < fst (map iv segs ! j)"
    using assms by (intro sorted_wrt_nth_less) auto
  then have "end_efta_id (segs ! i) < start_efta_id (segs ! j)"
    using assms by (simp add: iv_def)
  then show ?thesis by auto
qed

text \<open>
  C2. For every page sequence with strictly increasing page IDs, the segments the fold
  emits (the list \<open>segments\<close>, and the list \<open>kept\<close> written to the table) have
  pairwise disjoint ID intervals \<open>[start_efta_id, end_efta_id]\<close>.
\<close>

theorem segments_pairwise_disjoint:
  assumes "sorted_wrt (<) (map efta_id rows)"
      and "segs = fold_segments alpha keep_unmarked rows
           \<or> segs = room_segments_v2 alpha keep_unmarked min_run rows"
      and "i < j" and "j < length segs"
  shows "{start_efta_id (segs ! i)..end_efta_id (segs ! i)}
           \<inter> {start_efta_id (segs ! j)..end_efta_id (segs ! j)} = {}"
proof -
  have all: "sorted_wrt (\<lambda>p q. snd p < fst q) (map iv (fold_segments alpha keep_unmarked rows))"
    using fold_segments_ok[OF assms(1)] by blast
  have "sorted_wrt (\<lambda>p q. snd p < fst q) (map iv segs)"
  proof (cases "segs = fold_segments alpha keep_unmarked rows")
    case True
    with all show ?thesis by simp
  next
    case False
    with assms(2) have "segs = room_segments_v2 alpha keep_unmarked min_run rows" by simp
    then have "map iv segs = map iv (filter (\<lambda>s. \<not> (marker_text s = ''UNMARKED'' \<and> \<not> keep_unmarked)
                 \<and> n_files s \<ge> min_run) (fold_segments alpha keep_unmarked rows))"
      by (simp add: room_segments_v2_def kept_segments_ivals)
    moreover have "sorted_wrt (\<lambda>a b. snd (iv a) < fst (iv b)) (fold_segments alpha keep_unmarked rows)"
      using all by (simp add: sorted_wrt_map)
    ultimately show ?thesis
      by (simp add: sorted_wrt_map sorted_wrt_filter)
  qed
  from disjoint_from_sorted[OF this assms(3,4)] show ?thesis .
qed

theorem segments_pairwise_disjoint_witness:
  "length (fold_segments ascii_alpha False demo_rows) = 3
   \<and> {start_efta_id (fold_segments ascii_alpha False demo_rows ! 0)
        ..end_efta_id (fold_segments ascii_alpha False demo_rows ! 0)} = {1..2}
   \<and> {start_efta_id (fold_segments ascii_alpha False demo_rows ! 1)
        ..end_efta_id (fold_segments ascii_alpha False demo_rows ! 1)} = {4..4}
   \<and> {start_efta_id (fold_segments ascii_alpha False demo_rows ! 0)
        ..end_efta_id (fold_segments ascii_alpha False demo_rows ! 0)}
       \<inter> {start_efta_id (fold_segments ascii_alpha False demo_rows ! 1)
            ..end_efta_id (fold_segments ascii_alpha False demo_rows ! 1)} = {}"
proof -
  have ev: "map iv (fold_segments ascii_alpha False demo_rows) = [(1, 2), (4, 4), (5, 5)]"
    by code_simp
  have srt: "sorted_wrt (<) (map efta_id demo_rows)"
    by (simp add: demo_rows_def demo_row_def)
  have len: "length (fold_segments ascii_alpha False demo_rows) = 3"
    using arg_cong[OF ev, of length] by simp
  have n0: "iv (fold_segments ascii_alpha False demo_rows ! 0) = (1, 2)"
    using arg_cong[OF ev, of "\<lambda>xs. xs ! 0"] len by simp
  have n1: "iv (fold_segments ascii_alpha False demo_rows ! 1) = (4, 4)"
    using arg_cong[OF ev, of "\<lambda>xs. xs ! 1"] len by simp
  have "{start_efta_id (fold_segments ascii_alpha False demo_rows ! 0)
        ..end_efta_id (fold_segments ascii_alpha False demo_rows ! 0)}
       \<inter> {start_efta_id (fold_segments ascii_alpha False demo_rows ! 1)
            ..end_efta_id (fold_segments ascii_alpha False demo_rows ! 1)} = {}"
    using segments_pairwise_disjoint[of demo_rows "fold_segments ascii_alpha False demo_rows"
        ascii_alpha False _ 0 1, OF srt] len by simp
  with len n0 n1 show ?thesis by (simp add: iv_def)
qed

lemma all_segs_close_cur:
  "map sans_reason (all_segs (close_cur reason st)) = map sans_reason (all_segs st)"
  by (simp add: all_segs_def close_cur_def sans_reason_def split: option.splits)

lemma all_segs_hard_resets:
  "map sans_reason (all_segs (hard_resets l sh st)) = map sans_reason (all_segs st)"
proof -
  have "\<And>s a. all_segs (s\<lparr>prev_loc := a\<rparr>) = all_segs s" "\<And>s b. all_segs (s\<lparr>prev_shoot := b\<rparr>) = all_segs s"
    by (simp_all add: all_segs_def)
  then show ?thesis
    by (simp add: hard_resets_def all_segs_close_cur split: option.splits)
qed

lemma avoid_close_cur: "avoid_ids S st \<Longrightarrow> avoid_ids S (close_cur reason st)"
  by (fastforce simp: avoid_ids_def close_cur_def split: option.splits)

lemma avoid_prev_update:
  "avoid_ids S (st\<lparr>prev_loc := a\<rparr>) = avoid_ids S st"
  "avoid_ids S (st\<lparr>prev_shoot := b\<rparr>) = avoid_ids S st"
  by (simp_all add: avoid_ids_def)

lemma avoid_hard_resets: "avoid_ids S st \<Longrightarrow> avoid_ids S (hard_resets l sh st)"
  by (simp add: hard_resets_def avoid_prev_update avoid_close_cur split: option.splits)

lemma avoid_start_segment:
  "avoid_ids S st \<Longrightarrow> \<forall>x\<in>S. x < e \<Longrightarrow> avoid_ids S (start_segment l sh m e f st)"
  by (simp add: avoid_ids_def start_segment_def)

lemma avoid_extend:
  "avoid_ids S st \<Longrightarrow> cur st = Some c \<Longrightarrow>
   avoid_ids S (st\<lparr>cur := Some (extend_cur e f c)\<rparr>)"
  by (simp add: avoid_ids_def extend_cur_def)

lemma avoid_insert_closed:
  assumes "avoid_ids S st" and "cur st = None" and "ok_ivals b (ivals st)" and "b \<le> e"
  shows "avoid_ids (insert e S) st"
proof -
  have "\<forall>s\<in>set (segments st). end_efta_id s < b"
    using assms(2,3) by (auto simp: ok_ivals_def ivals_def all_segs_def iv_def)
  with assms(1,2,4) show ?thesis
    by (fastforce simp: avoid_ids_def)
qed

lemma step_avoid:
  assumes ok: "ok_ivals b (ivals st)" and av: "avoid_ids S st"
      and lt: "\<forall>x\<in>S. x < b" and le: "b \<le> efta_id r"
  shows "avoid_ids (if is_slate r then insert (efta_id r) S else S) (step alpha ku r st)"
proof -
  define st1 where "st1 = hard_resets (loc_or_unknown r) (shoot r) st"
  have av1: "avoid_ids S st1"
    using av by (simp add: st1_def avoid_hard_resets)
  have ok1: "ok_ivals b (ivals st1)"
    using ok by (simp add: st1_def ivals_hard_resets)
  have lt': "\<forall>x\<in>S. x < efta_id r"
    using lt le by auto
  show ?thesis
  proof (cases "is_slate r")
    case True
    have "avoid_ids (insert (efta_id r) S) (close_cur ''slate'' st1)"
      using av1 ok1 le
      by (intro avoid_insert_closed[where b = b]) (simp_all add: avoid_close_cur cur_close_cur ivals_close_cur)
    with True show ?thesis
      by (simp add: step_def st1_def)
  next
    case False
    have "avoid_ids S (step alpha ku r st)"
      using False av1 lt'
      unfolding step_def Let_def st1_def[symmetric]
      by (auto simp: avoid_start_segment avoid_close_cur avoid_extend split: option.splits)
    with False show ?thesis by simp
  qed
qed

lemma run_rows_avoid:
  "ok_ivals b (ivals st) \<Longrightarrow> avoid_ids S st \<Longrightarrow> \<forall>x\<in>S. x < b \<Longrightarrow>
   sorted_wrt (<) (map efta_id rows) \<Longrightarrow> \<forall>r\<in>set rows. b \<le> efta_id r \<Longrightarrow>
   avoid_ids (S \<union> slate_ids rows) (run_rows alpha ku rows st)"
proof (induction rows arbitrary: b st S)
  case Nil
  then show ?case by (simp add: run_rows_def slate_ids_def)
next
  case (Cons r rows)
  let ?S = "if is_slate r then insert (efta_id r) S else S"
  have le: "b \<le> efta_id r" using Cons.prems(5) by simp
  have 1: "ok_ivals (efta_id r + 1) (ivals (step alpha ku r st))"
    using Cons.prems(1) le by (rule step_ok_ivals)
  have 2: "avoid_ids ?S (step alpha ku r st)"
    using Cons.prems(1,2,3) le by (rule step_avoid)
  have 3: "\<forall>x\<in>?S. x < efta_id r + 1"
    using Cons.prems(3) le by auto
  have 4: "sorted_wrt (<) (map efta_id rows)" "\<forall>x\<in>set rows. efta_id r + 1 \<le> efta_id x"
    using Cons.prems(4) by auto
  have "?S \<union> slate_ids rows = S \<union> slate_ids (r # rows)"
    by (auto simp: slate_ids_def)
  with Cons.IH[OF 1 2 3 4] show ?case
    by (simp add: run_rows_def)
qed

lemma fold_segments_avoid:
  assumes "sorted_wrt (<) (map efta_id rows)"
      and "r \<in> set rows" and "is_slate r" and "s \<in> set (fold_segments alpha ku rows)"
  shows "efta_id r \<notin> {start_efta_id s..end_efta_id s}"
proof -
  obtain b0 where b0: "\<forall>r\<in>set rows. b0 \<le> efta_id r"
  proof
    show "\<forall>r\<in>set rows. Min (insert 0 (efta_id ` set rows)) \<le> efta_id r"
      by (auto intro: Min_le)
  qed
  have i1: "ok_ivals b0 (ivals init_state)"
    by (simp add: ok_ivals_def ivals_def all_segs_def init_state_def)
  have i2: "avoid_ids {} init_state"
    by (simp add: avoid_ids_def)
  have "avoid_ids ({} \<union> slate_ids rows) (run_rows alpha ku rows init_state)"
    using i1 i2 _ assms(1) b0 by (rule run_rows_avoid) simp
  then have "avoid_ids (slate_ids rows) (close_cur ''eof'' (run_rows alpha ku rows init_state))"
    by (simp add: avoid_close_cur)
  moreover have "efta_id r \<in> slate_ids rows"
    using assms(2,3) by (auto simp: slate_ids_def)
  ultimately show ?thesis
    using assms(4) by (auto simp: avoid_ids_def fold_segments_def)
qed

text \<open>
  C8. A page flagged \<open>is_slate\<close> closes the segment still open after the
  location/shoot reset step, with reset reason "slate", and leaves no segment open.
  No segment, closed or open, changes in anything but that reason: the slate page
  becomes no segment's end ID and increments no file count.  Over a whole run with
  strictly increasing page IDs, the ID of a slate page lies in the ID interval of no
  emitted segment.
\<close>

theorem slate_page_closes_and_joins_nothing:
  assumes "is_slate r"
  shows "cur (step alpha keep_unmarked r st) = None
       \<and> segments (step alpha keep_unmarked r st)
           = segments (hard_resets (loc_or_unknown r) (shoot r) st)
             @ (case cur (hard_resets (loc_or_unknown r) (shoot r) st) of
                  None \<Rightarrow> []
                | Some c \<Rightarrow> [c\<lparr>reset_reason := ''slate''\<rparr>])
       \<and> map sans_reason (all_segs (step alpha keep_unmarked r st)) = map sans_reason (all_segs st)
       \<and> (sorted_wrt (<) (map efta_id rows) \<and> r \<in> set rows
            \<and> s \<in> set (fold_segments alpha keep_unmarked rows)
            \<longrightarrow> efta_id r \<notin> {start_efta_id s..end_efta_id s})"
proof -
  have st: "step alpha keep_unmarked r st
              = close_cur ''slate'' (hard_resets (loc_or_unknown r) (shoot r) st)"
    using assms by (simp add: step_def)
  have "cur (step alpha keep_unmarked r st) = None"
    by (simp add: st cur_close_cur)
  moreover have "segments (step alpha keep_unmarked r st)
           = segments (hard_resets (loc_or_unknown r) (shoot r) st)
             @ (case cur (hard_resets (loc_or_unknown r) (shoot r) st) of
                  None \<Rightarrow> []
                | Some c \<Rightarrow> [c\<lparr>reset_reason := ''slate''\<rparr>])"
    by (simp add: st close_cur_def split: option.splits)
  moreover have "map sans_reason (all_segs (step alpha keep_unmarked r st)) = map sans_reason (all_segs st)"
    by (simp add: st all_segs_close_cur all_segs_hard_resets)
  moreover have "sorted_wrt (<) (map efta_id rows) \<and> r \<in> set rows
            \<and> s \<in> set (fold_segments alpha keep_unmarked rows)
            \<longrightarrow> efta_id r \<notin> {start_efta_id s..end_efta_id s}"
    using assms fold_segments_avoid[of rows r s alpha keep_unmarked] by blast
  ultimately show ?thesis by simp
qed

theorem slate_page_closes_and_joins_nothing_witness:
  "is_slate (demo_row 3 True None)
   \<and> map n_files (all_segs demo_open) = [2]
   \<and> cur (step ascii_alpha False (demo_row 3 True None) demo_open) = None
   \<and> map reset_reason (segments (step ascii_alpha False (demo_row 3 True None) demo_open)) = [''slate'']
   \<and> map sans_reason (all_segs (step ascii_alpha False (demo_row 3 True None) demo_open))
       = map sans_reason (all_segs demo_open)
   \<and> map iv (fold_segments ascii_alpha False demo_rows) = [(1, 2), (4, 4), (5, 5)]
   \<and> list_all (\<lambda>s. efta_id (demo_row 3 True None) \<notin> {start_efta_id s..end_efta_id s})
        (fold_segments ascii_alpha False demo_rows)"
proof -
  have sl: "is_slate (demo_row 3 True None)"
    by (simp add: demo_row_def)
  have n: "map n_files (all_segs demo_open) = [2]"
    by code_simp
  have rr: "map reset_reason (segments (step ascii_alpha False (demo_row 3 True None) demo_open)) = [''slate'']"
    by code_simp
  have ev: "map iv (fold_segments ascii_alpha False demo_rows) = [(1, 2), (4, 4), (5, 5)]"
    by code_simp
  have srt: "sorted_wrt (<) (map efta_id demo_rows)"
    by (simp add: demo_rows_def demo_row_def)
  have mem: "demo_row 3 True None \<in> set demo_rows"
    by (simp add: demo_rows_def)
  note t = slate_page_closes_and_joins_nothing[OF sl, where alpha = ascii_alpha
      and keep_unmarked = False]
  have glob: "list_all (\<lambda>s. efta_id (demo_row 3 True None) \<notin> {start_efta_id s..end_efta_id s})
        (fold_segments ascii_alpha False demo_rows)"
    unfolding list_all_iff using t[where rows = demo_rows] srt mem by blast
  from t[where st = demo_open] sl n rr ev glob
  show ?thesis by simp
qed

text \<open>
  C9. A non-slate page with no valid marker extends the segment open at that point
  of the iteration (after the hard resets): its end ID becomes the page's ID and
  \<open>n_files\<close> grows by one, and nothing is closed.  With no segment open, it opens
  an "UNMARKED" segment when \<open>keep_unmarked\<close> is set, and otherwise joins no
  segment.  When the page has the location and shoot of the previous page, the hard
  resets leave the open segment as it was.
\<close>

theorem unmarked_page_extends_open_segment:
  fixes r :: row and st :: seg_state and alpha :: "char \<Rightarrow> bool" and keep_unmarked :: bool
  defines "st1 \<equiv> hard_resets (loc_or_unknown r) (shoot r) st"
  defines "st2 \<equiv> step alpha keep_unmarked r st"
  assumes "\<not> is_slate r"
      and "\<not> (has_marker r = Some True \<and> is_valid_marker alpha (marker r))"
  shows "(\<forall>c. cur st1 = Some c \<longrightarrow>
            cur st2 = Some (c\<lparr>end_efta_id := efta_id r, end_file_id := file_id r,
                              n_files := n_files c + 1\<rparr>)
            \<and> segments st2 = segments st1)
       \<and> (cur st1 = None \<and> keep_unmarked \<longrightarrow>
            (\<exists>c. cur st2 = Some c \<and> marker_text c = ''UNMARKED''
                 \<and> start_efta_id c = efta_id r \<and> end_efta_id c = efta_id r \<and> n_files c = 1)
            \<and> segments st2 = segments st1)
       \<and> (cur st1 = None \<and> \<not> keep_unmarked \<longrightarrow> cur st2 = None \<and> segments st2 = segments st1)
       \<and> (prev_loc st = None \<or> (prev_loc st = Some (loc_or_unknown r) \<and> prev_shoot st = shoot r)
            \<longrightarrow> cur st1 = cur st \<and> segments st1 = segments st)"
proof -
  have nm: "new_marker alpha r = None"
    using assms(4) by (auto simp: new_marker_def)
  have "step alpha keep_unmarked r st =
          (case cur (hard_resets (loc_or_unknown r) (shoot r) st) of
             Some c \<Rightarrow> (hard_resets (loc_or_unknown r) (shoot r) st)
                          \<lparr>cur := Some (extend_cur (efta_id r) (file_id r) c)\<rparr>
           | None \<Rightarrow> if keep_unmarked
                     then start_segment (loc_or_unknown r) (shoot r) ''UNMARKED'' (efta_id r)
                            (file_id r) (hard_resets (loc_or_unknown r) (shoot r) st)
                     else hard_resets (loc_or_unknown r) (shoot r) st)"
    using assms(3) nm by (simp add: step_def Let_def)
  then have s2: "st2 = (case cur st1 of
                     Some c \<Rightarrow> st1\<lparr>cur := Some (extend_cur (efta_id r) (file_id r) c)\<rparr>
                   | None \<Rightarrow> if keep_unmarked
                             then start_segment (loc_or_unknown r) (shoot r) ''UNMARKED'' (efta_id r) (file_id r) st1
                             else st1)"
    unfolding st1_def st2_def .
  have a: "\<forall>c. cur st1 = Some c \<longrightarrow>
            cur st2 = Some (c\<lparr>end_efta_id := efta_id r, end_file_id := file_id r,
                              n_files := n_files c + 1\<rparr>)
            \<and> segments st2 = segments st1"
    by (simp add: s2 extend_cur_def)
  have b: "cur st1 = None \<and> keep_unmarked \<longrightarrow>
            (\<exists>c. cur st2 = Some c \<and> marker_text c = ''UNMARKED''
                 \<and> start_efta_id c = efta_id r \<and> end_efta_id c = efta_id r \<and> n_files c = 1)
            \<and> segments st2 = segments st1"
    by (simp add: s2 start_segment_def)
  have c: "cur st1 = None \<and> \<not> keep_unmarked \<longrightarrow> cur st2 = None \<and> segments st2 = segments st1"
    by (simp add: s2)
  have d: "prev_loc st = None \<or> (prev_loc st = Some (loc_or_unknown r) \<and> prev_shoot st = shoot r)
            \<longrightarrow> cur st1 = cur st \<and> segments st1 = segments st"
    by (auto simp: st1_def hard_resets_def)
  from a b c d show ?thesis by blast
qed

theorem unmarked_page_extends_open_segment_witness:
  "map (\<lambda>c. (start_efta_id c, end_efta_id c, n_files c)) (all_segs demo_open) = [(1, 2, 2)]
   \<and> map (\<lambda>c. (start_efta_id c, end_efta_id c, n_files c))
        (all_segs (step ascii_alpha False (demo_row 3 False None) demo_open)) = [(1, 3, 3)]
   \<and> map (\<lambda>c. (marker_text c, start_efta_id c, end_efta_id c, n_files c))
        (all_segs (step ascii_alpha True (demo_row 3 False None) init_state)) = [(''UNMARKED'', 3, 3, 1)]
   \<and> all_segs (step ascii_alpha False (demo_row 3 False None) init_state) = []"
proof -
  have ns: "\<not> is_slate (demo_row 3 False None)"
    by (simp add: demo_row_def)
  have nm: "\<not> (has_marker (demo_row 3 False None) = Some True
               \<and> is_valid_marker ascii_alpha (marker (demo_row 3 False None)))"
    by (simp add: demo_row_def)
  have o: "map (\<lambda>c. (start_efta_id c, end_efta_id c, n_files c)) (all_segs demo_open) = [(1, 2, 2)]"
    by code_simp
  have h0: "cur (hard_resets (loc_or_unknown (demo_row 3 False None)) (shoot (demo_row 3 False None)) init_state) = None"
    "segments (hard_resets (loc_or_unknown (demo_row 3 False None)) (shoot (demo_row 3 False None)) init_state) = []"
    by (simp_all add: hard_resets_def init_state_def)
  note t = unmarked_page_extends_open_segment[OF ns nm]
  have e1: "map (\<lambda>c. (start_efta_id c, end_efta_id c, n_files c))
        (all_segs (step ascii_alpha False (demo_row 3 False None) demo_open)) = [(1, 3, 3)]"
    by code_simp
  have e2: "map (\<lambda>c. (marker_text c, start_efta_id c, end_efta_id c, n_files c))
        (all_segs (step ascii_alpha True (demo_row 3 False None) init_state)) = [(''UNMARKED'', 3, 3, 1)]"
    using t[where st=init_state and keep_unmarked=True] h0 by (auto simp: all_segs_def demo_row_def)
  have e3: "all_segs (step ascii_alpha False (demo_row 3 False None) init_state) = []"
    using t[where st=init_state and keep_unmarked=False] h0 by (simp add: all_segs_def)
  from o e1 e2 e3 show ?thesis by simp
qed

section \<open>Slate detection\<close>

lemma found_zip:
  "map fst (filter P (zip ks (map f ks))) = filter (\<lambda>k. P (k, f k)) ks"
  by (induction ks) simp_all

lemma all_zip:
  "list_all P (zip ks (map f ks)) = list_all (\<lambda>k. P (k, f k)) ks"
  by (induction ks) simp_all

lemma detect_slate_unfold:
  "detect_slate upper ocr roi psm keywords min_keywords strong_keywords =
     ((min_keywords \<le> int (length (filter (keyword_matches upper (ocr roi psm None)) keywords))
        \<or> (strong_keywords \<noteq> [] \<and> list_all (keyword_matches upper (ocr roi psm None)) strong_keywords)),
      ocr roi psm None,
      filter (keyword_matches upper (ocr roi psm None)) keywords)"
  unfolding detect_slate_def Let_def found_zip all_zip keyword_matches_def
  by simp

text \<open>
  C7 (amended). When the list of strong keywords is not empty and every strong keyword
  matches the OCR text (raw uppercased, or compacted), \<open>is_slate\<close> is true whatever
  the matched-keyword count; otherwise \<open>is_slate\<close> is true iff the number of
  matched keywords reaches \<open>min_keywords\<close>.  The matched keywords are the keywords
  that match, in their order.
\<close>

theorem strong_rule_needs_a_strong_keyword:
  "(strong_keywords \<noteq> [] \<and> (\<forall>k\<in>set strong_keywords. keyword_matches upper (ocr roi psm None) k)
      \<longrightarrow> fst (detect_slate upper ocr roi psm keywords min_keywords strong_keywords))
   \<and> (\<not> (strong_keywords \<noteq> [] \<and> (\<forall>k\<in>set strong_keywords. keyword_matches upper (ocr roi psm None) k))
      \<longrightarrow> fst (detect_slate upper ocr roi psm keywords min_keywords strong_keywords)
           = (min_keywords \<le> int (length (snd (snd (detect_slate upper ocr roi psm keywords min_keywords strong_keywords))))))
   \<and> snd (snd (detect_slate upper ocr roi psm keywords min_keywords strong_keywords))
       = filter (keyword_matches upper (ocr roi psm None)) keywords"
  by (auto simp: detect_slate_unfold list_all_iff)


theorem strong_rule_needs_a_strong_keyword_witness:
  "detect_slate ascii_upper (ocr_const ''Date: 1/2  case-id 7  LoCaTion X'') ''top'' 6
      [''DATE'', ''CASE ID'', ''LOCATION''] 5 [''DATE'', ''CASE ID'', ''LOCATION'']
     = (True, ''Date: 1/2  case-id 7  LoCaTion X'', [''DATE'', ''CASE ID'', ''LOCATION''])
   \<and> fst (detect_slate ascii_upper (ocr_const ''Date: 1/2  case-id 7  LoCaTion X'') ''top'' 6
      [''DATE'', ''CASE ID'', ''LOCATION''] 5 [''DATE'', ''CASE ID'', ''FBI''])
     = (5 \<le> int (length [''DATE'', ''CASE ID'', ''LOCATION'']))"
proof -
  let ?t = "''Date: 1/2  case-id 7  LoCaTion X''"
  let ?ks = "[''DATE'', ''CASE ID'', ''LOCATION'']"
  have all3: "?ks \<noteq> [] \<and> (\<forall>k\<in>set ?ks. keyword_matches ascii_upper (ocr_const ?t ''top'' 6 None) k)"
    by code_simp
  have some: "\<not> ([''DATE'', ''CASE ID'', ''FBI''] \<noteq> []
      \<and> (\<forall>k\<in>set [''DATE'', ''CASE ID'', ''FBI'']. keyword_matches ascii_upper (ocr_const ?t ''top'' 6 None) k))"
    by code_simp
  have ev: "detect_slate ascii_upper (ocr_const ?t) ''top'' 6 ?ks 5 ?ks = (True, ?t, ?ks)"
    by code_simp
  have fd: "filter (keyword_matches ascii_upper (ocr_const ?t ''top'' 6 None)) ?ks = ?ks"
    by code_simp
  from strong_rule_needs_a_strong_keyword[of "[''DATE'', ''CASE ID'', ''FBI'']" ascii_upper
      "ocr_const ?t" "''top''" 6 ?ks 5] some fd
  have "fst (detect_slate ascii_upper (ocr_const ?t) ''top'' 6 ?ks 5 [''DATE'', ''CASE ID'', ''FBI''])
     = (5 \<le> int (length ?ks))"
    by simp
  moreover from strong_rule_needs_a_strong_keyword[of ?ks ascii_upper "ocr_const ?t" "''top''" 6 ?ks 5] all3
  have "fst (detect_slate ascii_upper (ocr_const ?t) ''top'' 6 ?ks 5 ?ks)"
    by blast
  ultimately show ?thesis using ev by simp
qed

text \<open>
  C7 as stated fails when \<open>strong_keywords\<close> is empty: every strong keyword matches
  (there is none), the count 0 is below \<open>min_keywords = 1\<close>, and \<open>is_slate\<close> is false.
\<close>

theorem strong_rule_not_vacuous_counterexample:
  "list_all (keyword_matches ascii_upper (ocr_const ''blank'' ''top'' 6 None)) []
   \<and> detect_slate ascii_upper (ocr_const ''blank'') ''top'' 6 [''DATE''] 1 [] = (False, ''blank'', [])"
  by code_simp

text \<open>
  C10. With an empty \<open>strong_keywords\<close> list the strong rule is false, and
  \<open>is_slate\<close> is exactly "the number of matched keywords reaches \<open>min_keywords\<close>".
\<close>

theorem empty_strong_list_counts_only:
  "fst (detect_slate upper ocr roi psm keywords min_keywords [])
     = (min_keywords \<le> int (length (snd (snd (detect_slate upper ocr roi psm keywords min_keywords [])))))
   \<and> snd (snd (detect_slate upper ocr roi psm keywords min_keywords []))
       = filter (keyword_matches upper (ocr roi psm None)) keywords"
  by (simp add: detect_slate_unfold)


theorem empty_strong_list_counts_only_witness:
  "detect_slate ascii_upper (ocr_const ''DATE and LOCATION'') ''top'' 6 [''DATE'', ''LOCATION'', ''FBI''] 3 []
     = (False, ''DATE and LOCATION'', [''DATE'', ''LOCATION''])
   \<and> fst (detect_slate ascii_upper (ocr_const ''DATE and LOCATION'') ''top'' 6 [''DATE'', ''LOCATION'', ''FBI''] 3 [])
     = (3 \<le> int (length [''DATE'', ''LOCATION'']))"
proof -
  have ev: "detect_slate ascii_upper (ocr_const ''DATE and LOCATION'') ''top'' 6 [''DATE'', ''LOCATION'', ''FBI''] 3 []
     = (False, ''DATE and LOCATION'', [''DATE'', ''LOCATION''])"
    by code_simp
  have "fst (detect_slate ascii_upper (ocr_const ''DATE and LOCATION'') ''top'' 6 [''DATE'', ''LOCATION'', ''FBI''] 3 [])
     = (3 \<le> int (length (snd (snd (detect_slate ascii_upper (ocr_const ''DATE and LOCATION'') ''top'' 6
          [''DATE'', ''LOCATION'', ''FBI''] 3 [])))))"
    using empty_strong_list_counts_only[of ascii_upper "ocr_const ''DATE and LOCATION''" "''top''" 6
      "[''DATE'', ''LOCATION'', ''FBI'']" 3] by (rule conjunct1)
  then have "fst (detect_slate ascii_upper (ocr_const ''DATE and LOCATION'') ''top'' 6 [''DATE'', ''LOCATION'', ''FBI''] 3 [])
     = (3 \<le> int (length [''DATE'', ''LOCATION'']))"
    by (simp only: ev snd_conv)
  with ev show ?thesis by (rule conjI)
qed

section \<open>Room-marker detection\<close>

lemma strip_subset: "set (strip s) \<subseteq> set s"
proof
  fix x assume "x \<in> set (strip s)"
  then have "x \<in> set (dropWhile is_space (rev (dropWhile is_space s)))"
    by (simp add: strip_def)
  then have "x \<in> set (rev (dropWhile is_space s))"
    by (rule set_dropWhileD)
  then have "x \<in> set (dropWhile is_space s)"
    by simp
  then show "x \<in> set s"
    by (rule set_dropWhileD)
qed

lemma clean_letters_AZ: "list_all is_AZ (clean_letters upper s)"
  using strip_subset[of "keep_AZ (upper s)"]
  by (auto simp: clean_letters_def keep_AZ_def list_all_iff)

lemma newline_not_AZ: "\<not> is_AZ (CHR 0x0A)"
  by (simp add: is_AZ_def)

lemma room_re_default_letters:
  "room_re_default s \<Longrightarrow> list_all is_AZ s \<Longrightarrow> letters12 s"
  by (auto simp: room_re_default_def letters12_def newline_not_AZ split: list.splits)

lemma findall_AZ12_letters: "t \<in> set (findall_AZ12 s) \<Longrightarrow> letters12 t"
  by (induction s rule: findall_AZ12.induct) (auto simp: letters12_def split: if_splits)

lemma best_candidate_letters:
  assumes "best_candidate_from_text upper room_re_default txt = Some c"
  shows "letters12 c"
proof (cases "room_re_default (clean_letters upper txt)")
  case True
  with assms have "c = clean_letters upper txt"
    by (simp add: best_candidate_from_text_def)
  with True show ?thesis
    by (simp add: room_re_default_letters clean_letters_AZ)
next
  case False
  with assms obtain ts where "filter room_re_default (findall_AZ12 (upper txt)) = c # ts"
    by (auto simp: best_candidate_from_text_def split: list.splits)
  then have "c \<in> set (filter room_re_default (findall_AZ12 (upper txt)))"
    by simp
  then show ?thesis
    by (auto simp: findall_AZ12_letters)
qed

lemma try_psm_ok:
  "best_ok b \<Longrightarrow> best_ok (try_psm upper ocr wl room_re_default r psm base b)"
  by (auto simp: try_psm_def Let_def best_ok_def truthy_def dest: best_candidate_letters
      split: option.splits)

lemma fold_try_ok:
  "best_ok b \<Longrightarrow>
   best_ok (fold (\<lambda>r best. try_psm upper ocr wl room_re_default r 8 8
                      (try_psm upper ocr wl room_re_default r 10 10 best)) rs b)"
  by (induction rs arbitrary: b) (simp_all add: try_psm_ok)

lemma multi_roi_best_ok: "best_ok (multi_roi_best upper ocr wl room_re_default)"
  unfolding multi_roi_best_def by (rule fold_try_ok) (simp add: best_ok_def)

text \<open>
  C1 (amended). With the default pattern, whenever the detector reports
  \<open>has_marker = true\<close> the marker it returns is one capital letter or two capital
  letters of A-Z; the two letters need not be the same.
\<close>

theorem marker_is_one_or_two_capitals:
  assumes "detect_room_marker upper ocr roi psm whitelist room_re_default = (True, m, dbg)"
  shows "\<exists>a. is_AZ a \<and> (m = Some [a] \<or> (\<exists>b. is_AZ b \<and> m = Some [a, b]))"
proof -
  have "\<exists>c. m = Some c \<and> letters12 c"
  proof (cases "roi = ''multi''")
    case True
    with assms multi_roi_best_ok[of upper ocr whitelist] show ?thesis
      by (auto simp: detect_room_marker_def best_ok_def split: option.splits)
  next
    case False
    with assms obtain t0 where eq: "best_candidate_from_text upper room_re_default t0 = m"
        and tr: "truthy m"
      by (auto simp: detect_room_marker_def Let_def split: if_splits)
    from tr obtain c where c: "m = Some c"
      by (cases m) (simp_all add: truthy_def)
    with eq have "letters12 c"
      by (simp add: best_candidate_letters)
    with c show ?thesis by simp
  qed
  then obtain c where c: "m = Some c" "letters12 c" by blast
  then show ?thesis
    by (cases c; cases "tl c"; cases "tl (tl c)") (auto simp: letters12_def)
qed


theorem marker_is_one_or_two_capitals_witness:
  "detect_room_marker ascii_upper (ocr_const ''cc '') ''multi'' 8 capitals room_re_default
     = (True, Some ''CC'', ''[roi=left_band psm=10] cc '')
   \<and> (\<exists>a. is_AZ a \<and> (Some ''CC'' = Some [a] \<or> (\<exists>b. is_AZ b \<and> Some ''CC'' = Some [a, b])))"
proof -
  have ev: "detect_room_marker ascii_upper (ocr_const ''cc '') ''multi'' 8 capitals room_re_default
     = (True, Some ''CC'', ''[roi=left_band psm=10] cc '')"
    by code_simp
  from marker_is_one_or_two_capitals[OF ev] ev show ?thesis by blast
qed

text \<open>
  C1 as stated fails: on a page that reads "AB" the detector, in multi-region mode and
  in single-region mode, returns the marker "AB", two distinct letters, which the
  segmentation's \<open>is_valid_marker\<close> rejects afterwards.
\<close>

theorem distinct_letters_counterexample:
  "detect_room_marker ascii_upper (ocr_const ''AB'') ''multi'' 8 capitals room_re_default
     = (True, Some ''AB'', ''[roi=left_band psm=10] AB'')
   \<and> detect_room_marker ascii_upper (ocr_const ''AB'') ''center'' 8 capitals room_re_default
     = (True, Some ''AB'', ''AB'')
   \<and> CHR ''A'' \<noteq> CHR ''B''
   \<and> \<not> is_valid_marker ascii_alpha (Some ''AB'')"
  by code_simp

lemma try_psm_pick:
  "try_psm upper ocr whitelist room_re r psm base best
     = fold pick (candidate_at upper ocr whitelist room_re (r, psm, base)) best"
  by (simp add: try_psm_def candidate_at_def pick_def Let_def truthy_def split: option.splits)

lemma multi_roi_best_fold:
  "multi_roi_best upper ocr whitelist room_re
     = fold pick (candidates upper ocr whitelist room_re) None"
proof -
  have "fold (\<lambda>r best. try_psm upper ocr whitelist room_re r 8 8
                      (try_psm upper ocr whitelist room_re r 10 10 best)) rs b
        = fold pick (concat (map (candidate_at upper ocr whitelist room_re)
                               (concat (map (\<lambda>r. [(r, 10, 10), (r, 8, 8)]) rs)))) b" for rs b
    by (induction rs arbitrary: b) (simp_all add: try_psm_pick)
  then show ?thesis
    by (simp add: multi_roi_best_def candidates_def eval_order_def)
qed

lemma first_highest_snoc:
  assumes "first_highest cs w"
  shows "first_highest (cs @ [x]) (if fst x > fst w then x else w)"
proof -
  from assms obtain pre post where sp: "cs = pre @ w # post"
    and lt: "list_all (\<lambda>y. fst y < fst w) pre" and le: "list_all (\<lambda>y. fst y \<le> fst w) post"
    by (auto simp: first_highest_def)
  show ?thesis
  proof (cases "fst x > fst w")
    case True
    have "cs @ [x] = cs @ x # []" by simp
    moreover have "list_all (\<lambda>y. fst y < fst x) cs"
      using sp lt le True by (auto simp: list_all_iff)
    ultimately show ?thesis
      using True unfolding first_highest_def by (intro exI[of _ cs] exI[of _ "[]"]) simp
  next
    case False
    have "cs @ [x] = pre @ w # (post @ [x])" using sp by simp
    moreover have "list_all (\<lambda>y. fst y \<le> fst w) (post @ [x])"
      using le False by simp
    ultimately show ?thesis
      using False lt unfolding first_highest_def
      by (intro exI[of _ pre] exI[of _ "post @ [x]"]) simp
  qed
qed

lemma fold_pick_some:
  "first_highest cs w \<Longrightarrow> \<exists>w'. fold pick xs (Some w) = Some w' \<and> first_highest (cs @ xs) w'"
proof (induction xs arbitrary: cs w)
  case Nil
  then show ?case by simp
next
  case (Cons x xs)
  have "pick x (Some w) = Some (if fst x > fst w then x else w)"
    by (simp add: pick_def)
  moreover from Cons.IH[OF first_highest_snoc[OF Cons.prems, of x]]
  obtain w' where "fold pick xs (Some (if fst x > fst w then x else w)) = Some w'"
      "first_highest ((cs @ [x]) @ xs) w'" by blast
  ultimately show ?case by simp
qed

lemma fold_pick_none:
  "fold pick xs None = (case xs of [] \<Rightarrow> None | x # ys \<Rightarrow> fold pick ys (Some x))"
  by (cases xs) (simp_all add: pick_def)

lemma fold_pick_first_highest:
  "(xs = [] \<longrightarrow> fold pick xs None = None)
   \<and> (xs \<noteq> [] \<longrightarrow> (\<exists>w. fold pick xs None = Some w \<and> first_highest xs w))"
proof (cases xs)
  case Nil
  then show ?thesis by simp
next
  case (Cons x ys)
  have "first_highest [x] x"
    unfolding first_highest_def by (intro exI[of _ "[]"]) simp
  from fold_pick_some[OF this, of ys] Cons show ?thesis
    by (simp add: pick_def)
qed

lemma noise_bonus_antitone:
  "length (clean_letters upper t1) \<le> length (clean_letters upper t2) \<Longrightarrow>
   candidate_score upper base c t2 \<le> candidate_score upper base c t1"
  by (simp add: candidate_score_def)

text \<open>
  C5 (amended). In multi-region detection the score of a candidate is the base of its
  configuration, 10 for single-character mode against 8 for single-word mode, plus 2
  when the candidate has two letters and plus 1 when it has one (a doubled letter
  gains one point over a single letter), plus \<open>max(0, 5 - n)\<close> for \<open>n\<close> letters
  of cleaned OCR text, a bonus that never grows with the noise.  With no candidate the
  page has no marker; otherwise the marker returned is a candidate of highest score,
  and among those the first in evaluation order: every earlier candidate scores
  strictly less, every later one at most as much.
\<close>

theorem multi_roi_scoring_and_winner:
  "candidate_score upper 8 c t < candidate_score upper 10 c t
   \<and> (length c = 2 \<longrightarrow>
        candidate_score upper base c t
          = base + 2 + max 0 (5 - int (length (clean_letters upper t))))
   \<and> (length c \<noteq> 2 \<longrightarrow>
        candidate_score upper base c t
          = base + 1 + max 0 (5 - int (length (clean_letters upper t))))
   \<and> (length (clean_letters upper t) \<le> length (clean_letters upper t') \<longrightarrow>
        candidate_score upper base c t' \<le> candidate_score upper base c t)
   \<and> (candidates upper ocr whitelist room_re = [] \<longrightarrow>
        detect_room_marker upper ocr ''multi'' psm whitelist room_re = (False, None, []))
   \<and> (candidates upper ocr whitelist room_re \<noteq> [] \<longrightarrow>
        (\<exists>sc cand t0 r p.
           first_highest (candidates upper ocr whitelist room_re) (sc, cand, t0, r, p)
           \<and> detect_room_marker upper ocr ''multi'' psm whitelist room_re
               = (True, Some cand, ''[roi='' @ r @ '' psm='' @ str_int p @ ''] '' @ t0)))"
proof -
  have win: "(candidates upper ocr whitelist room_re = [] \<longrightarrow>
        detect_room_marker upper ocr ''multi'' psm whitelist room_re = (False, None, []))
   \<and> (candidates upper ocr whitelist room_re \<noteq> [] \<longrightarrow>
        (\<exists>sc cand t0 r p.
           first_highest (candidates upper ocr whitelist room_re) (sc, cand, t0, r, p)
           \<and> detect_room_marker upper ocr ''multi'' psm whitelist room_re
               = (True, Some cand, ''[roi='' @ r @ '' psm='' @ str_int p @ ''] '' @ t0)))"
  proof (cases "candidates upper ocr whitelist room_re = []")
    case True
    then show ?thesis
      by (simp add: detect_room_marker_def multi_roi_best_fold)
  next
    case False
    with fold_pick_first_highest[of "candidates upper ocr whitelist room_re"]
    obtain w where w: "fold pick (candidates upper ocr whitelist room_re) None = Some w"
      and fh: "first_highest (candidates upper ocr whitelist room_re) w"
      by blast
    obtain sc cand t0 r p where weq: "w = (sc, cand, t0, r, p)"
      by (cases w)
    have "detect_room_marker upper ocr ''multi'' psm whitelist room_re
               = (True, Some cand, ''[roi='' @ r @ '' psm='' @ str_int p @ ''] '' @ t0)"
      by (simp add: detect_room_marker_def multi_roi_best_fold w weq)
    with fh weq False show ?thesis by blast
  qed
  have sc: "candidate_score upper 8 c t < candidate_score upper 10 c t"
    "length c = 2 \<longrightarrow> candidate_score upper base c t
          = base + 2 + max 0 (5 - int (length (clean_letters upper t)))"
    "length c \<noteq> 2 \<longrightarrow> candidate_score upper base c t
          = base + 1 + max 0 (5 - int (length (clean_letters upper t)))"
    by (simp_all add: candidate_score_def)
  have mono: "length (clean_letters upper t) \<le> length (clean_letters upper t') \<longrightarrow>
        candidate_score upper base c t' \<le> candidate_score upper base c t"
    using noise_bonus_antitone[of upper t t' base c] by blast
  from sc mono win show ?thesis by blast
qed

theorem multi_roi_scoring_and_winner_witness:
  "candidates ascii_upper demo_page capitals room_re_default
     = [(11, ''B'', ''B XXXX'', ''left_band'', 10), (11, ''CC'', ''CC DD'', ''left_band'', 8),
        (15, ''CC'', ''cc'', ''top_band'', 10), (15, ''DD'', ''DD'', ''full'', 10)]
   \<and> detect_room_marker ascii_upper demo_page ''multi'' 8 capitals room_re_default
     = (True, Some ''CC'', ''[roi=top_band psm=10] cc'')
   \<and> candidate_score ascii_upper 8 ''CC'' ''cc'' < candidate_score ascii_upper 10 ''CC'' ''cc''
   \<and> candidate_score ascii_upper 10 ''CC'' ''cc'' = 10 + 2 + 3
   \<and> candidate_score ascii_upper 10 ''B'' ''B XXXX'' = 10 + 1 + 0"
proof -
  note t = multi_roi_scoring_and_winner[of ascii_upper "''CC''" "''cc''" 10 "''B XXXX''"
      demo_page capitals room_re_default 8]
  have cs: "candidates ascii_upper demo_page capitals room_re_default
     = [(11, ''B'', ''B XXXX'', ''left_band'', 10), (11, ''CC'', ''CC DD'', ''left_band'', 8),
        (15, ''CC'', ''cc'', ''top_band'', 10), (15, ''DD'', ''DD'', ''full'', 10)]"
    by code_simp
  have ev: "detect_room_marker ascii_upper demo_page ''multi'' 8 capitals room_re_default
     = (True, Some ''CC'', ''[roi=top_band psm=10] cc'')"
    by code_simp
  have l2: "length ''CC'' = 2" and n: "int (length (clean_letters ascii_upper ''cc'')) = 2"
    by code_simp+
  from t have "candidate_score ascii_upper 8 ''CC'' ''cc'' < candidate_score ascii_upper 10 ''CC'' ''cc''"
    by blast
  moreover from t l2 n have "candidate_score ascii_upper 10 ''CC'' ''cc'' = 10 + 2 + 3"
    by simp
  moreover have "candidate_score ascii_upper 10 ''B'' ''B XXXX'' = 10 + 1 + 0"
    by code_simp
  ultimately show ?thesis using cs ev by simp
qed

text \<open>
  C5 as stated fails.  In the same configuration and with the same noise length, the
  doubled letter "CC" scores one point more than the single letter "C", not two: on
  the page \<open>tie_page\<close> the single letter "B" (single-character mode, five letters
  read) and the doubled letter "CC" (single-word mode, four letters read) tie at 11
  and "B", found first, is returned.  The noise bonus is 4, 2 and 0 for 1, 3 and 5
  letters read: it is not inversely proportional to the noise length.
\<close>

theorem doubled_letter_bonus_counterexample:
  "best_candidate_from_text ascii_upper room_re_default ''CC XXX'' = Some ''CC''
   \<and> best_candidate_from_text ascii_upper room_re_default ''C XXXX'' = Some ''C''
   \<and> length (clean_letters ascii_upper ''CC XXX'') = 5
   \<and> length (clean_letters ascii_upper ''C XXXX'') = 5
   \<and> candidate_score ascii_upper 10 ''CC'' ''CC XXX''
       = candidate_score ascii_upper 10 ''C'' ''C XXXX'' + 1
   \<and> candidates ascii_upper tie_page capitals room_re_default
       = [(11, ''B'', ''B XXXX'', ''left_band'', 10), (11, ''CC'', ''CC DD'', ''left_band'', 8)]
   \<and> detect_room_marker ascii_upper tie_page ''multi'' 8 capitals room_re_default
       = (True, Some ''B'', ''[roi=left_band psm=10] B XXXX'')
   \<and> length (clean_letters ascii_upper ''C'') = 1
   \<and> length (clean_letters ascii_upper ''C XX'') = 3
   \<and> candidate_score ascii_upper 10 ''C'' ''C'' = 10 + 1 + 4
   \<and> candidate_score ascii_upper 10 ''C'' ''C XX'' = 10 + 1 + 2
   \<and> candidate_score ascii_upper 10 ''C'' ''C XXXX'' = 10 + 1 + 0"
  by code_simp

section \<open>The similarity scorer and the graph\<close>























end
